theory Spec2Isabelle
  imports Main "HOL-Library.Word" "HOL-Library.Monad_Syntax" "HOL-Library.Sublist"
begin

unbundle bit_operations_syntax

section \<open>The TWI peripheral as the driver sees it\<close>

text \<open>
  The driver of \<^verbatim>\<open>lib/twi/twi.c\<close> talks to the two-wire peripheral of the ATmega328P
  through three memory-mapped 8-bit registers: the control register TWCR, the data
  register TWDR and the status register TWSR. They are volatile: what a load returns
  is decided by the hardware, and the hardware moves on between two loads. The
  peripheral is therefore a parameter of every driver function: a state type \<open>'h\<close>
  and the effect of each register access on it. A load returns the value read and
  the hardware state afterwards.
\<close>

type_synonym byte = "8 word"

record 'h twi_hw =
  store_TWCR :: "byte \<Rightarrow> 'h \<Rightarrow> 'h"
  store_TWDR :: "byte \<Rightarrow> 'h \<Rightarrow> 'h"
  load_TWCR :: "'h \<Rightarrow> byte \<times> 'h"
  load_TWSR :: "'h \<Rightarrow> byte \<times> 'h"
  load_TWDR :: "'h \<Rightarrow> byte \<times> 'h"

text \<open>
  Bit numbers of TWCR on the ATmega328P, the device named in the header comment of
  \<^verbatim>\<open>twi.c\<close> (they come from the device header, which the driver includes through
  \<^verbatim>\<open>twi.h\<close>).
\<close>

definition TWINT :: nat where "TWINT = 7"
definition TWEA :: nat where "TWEA = 6"
definition TWSTA :: nat where "TWSTA = 5"
definition TWSTO :: nat where "TWSTO = 4"
definition TWEN :: nat where "TWEN = 2"

text \<open>
  The two macros of \<^verbatim>\<open>twi.h\<close> the driver uses as values. The header is not part
  of the sources at hand, so both are parameters of the functions that use them.
\<close>

record twi_h =
  TWI_WRITE :: byte
  TWI_ACK :: byte

text \<open>
  The state the driver works on: the peripheral, the register stores issued so far
  (oldest first), the characters handed to the UART so far, and the bytes of memory
  starting at the local buffer \<^verbatim>\<open>string\<close> of \<^verbatim>\<open>twi_scan\<close>, indexed by their offset
  from \<^verbatim>\<open>&string[0]\<close>. The buffer itself is offsets 0 and 1; \<open>stored\<close> lists the
  offsets written so far, so that every store can be checked against the bounds of
  the buffer. A store at offset 2 or beyond is outside \<^verbatim>\<open>string\<close>: it goes to the
  byte at that offset, as it does in the flat data memory of the device, and is
  listed like any other. The variables \<^verbatim>\<open>sla\<close> and \<^verbatim>\<open>ack\<close> are values of their
  own and not bytes of this memory.
\<close>

datatype reg_write = Set_TWCR byte | Set_TWDR byte

record 'h mcu =
  twi :: 'h
  regw :: "reg_write list"
  uart :: string
  frame :: "nat \<Rightarrow> char"
  stored :: "nat list"

definition wr_TWCR :: "'h twi_hw \<Rightarrow> byte \<Rightarrow> 'h mcu \<Rightarrow> 'h mcu" where
  "wr_TWCR H v s = s\<lparr>twi := store_TWCR H v (twi s), regw := regw s @ [Set_TWCR v]\<rparr>"

definition wr_TWDR :: "'h twi_hw \<Rightarrow> byte \<Rightarrow> 'h mcu \<Rightarrow> 'h mcu" where
  "wr_TWDR H v s = s\<lparr>twi := store_TWDR H v (twi s), regw := regw s @ [Set_TWDR v]\<rparr>"

section \<open>The bus driver\<close>

text \<open>
  \<^verbatim>\<open>while ((TWCR & (1<<TWINT)) == 0);\<close> Each round loads TWCR once. The loop has
  no bound, so it is a partial function: \<open>None\<close> is the loop that never ends.
\<close>

partial_function (option) wait_TWINT :: "'h twi_hw \<Rightarrow> 'h mcu \<Rightarrow> 'h mcu option" where
  "wait_TWINT H s =
     (if fst (load_TWCR H (twi s)) AND push_bit TWINT 1 = 0
      then wait_TWINT H (s\<lparr>twi := snd (load_TWCR H (twi s))\<rparr>)
      else Some (s\<lparr>twi := snd (load_TWCR H (twi s))\<rparr>))"

definition twi_start :: "'h twi_hw \<Rightarrow> 'h mcu \<Rightarrow> 'h mcu option" where
  "twi_start H s =
     wait_TWINT H (wr_TWCR H (push_bit TWINT 1 OR push_bit TWSTA 1 OR push_bit TWEN 1) s)"

definition twi_write :: "'h twi_hw \<Rightarrow> byte \<Rightarrow> 'h mcu \<Rightarrow> (byte \<times> 'h mcu) option" where
  "twi_write H data s =
     do {
       s1 \<leftarrow> wait_TWINT H (wr_TWCR H (push_bit TWINT 1 OR push_bit TWEN 1) (wr_TWDR H data s));
       let twi_status = fst (load_TWSR H (twi s1)) AND 0xf8;
           s2 = s1\<lparr>twi := snd (load_TWSR H (twi s1))\<rparr>
       in if twi_status = 0x18 \<or> twi_status = 0x28 \<or> twi_status = 0x40
          then Some (0, s2)
          else Some (1, s2)
     }"

definition twi_read :: "'h twi_hw \<Rightarrow> twi_h \<Rightarrow> byte \<Rightarrow> 'h mcu \<Rightarrow> (byte \<times> 'h mcu) option" where
  "twi_read H cfg ack s =
     do {
       s1 \<leftarrow> wait_TWINT H
               (if ack = TWI_ACK cfg
                then wr_TWCR H (push_bit TWINT 1 OR push_bit TWEN 1 OR push_bit TWEA 1) s
                else wr_TWCR H (push_bit TWINT 1 OR push_bit TWEN 1) s);
       Some (fst (load_TWDR H (twi s1)), s1\<lparr>twi := snd (load_TWDR H (twi s1))\<rparr>)
     }"

definition twi_stop :: "'h twi_hw \<Rightarrow> 'h mcu \<Rightarrow> 'h mcu" where
  "twi_stop H s = wr_TWCR H (push_bit TWINT 1 OR push_bit TWSTO 1 OR push_bit TWEN 1) s"

section \<open>Library calls of the scanner\<close>

text \<open>
  \<^verbatim>\<open>itoa(val, s, radix)\<close> is the C library conversion of \<^verbatim>\<open>stdlib.h\<close> (avr-libc),
  not part of the sources at hand. As documented there, it writes the numeral of
  \<open>val\<close> in the given radix to \<open>s\<close>, most significant digit first, without leading
  zeros, the digits after 9 being the lower-case letters from a, with a minus sign
  in front when the radix is 10 and \<open>val\<close> is negative (any other radix reads a
  negative \<open>val\<close> as an unsigned 16-bit number), and ends it with a NUL; the caller
  provides enough storage. Its stores go to the bytes at \<open>s\<close> and after it.
\<close>

definition NUL :: char where "NUL = CHR 0x00"
definition CR :: char where "CR = CHR 0x0D"
definition LF :: char where "LF = CHR 0x0A"

definition digit_char :: "nat \<Rightarrow> char" where
  "digit_char d = ''0123456789abcdefghijklmnopqrstuvwxyz'' ! d"

function numeral_text :: "nat \<Rightarrow> nat \<Rightarrow> string" where
  "numeral_text radix n =
     (if radix < 2 \<or> n < radix then [digit_char n]
      else numeral_text radix (n div radix) @ [digit_char (n mod radix)])"
  by pat_completeness auto
termination
  by (relation "measure (\<lambda>(radix, n). n)") auto

definition itoa_text :: "int \<Rightarrow> nat \<Rightarrow> string" where
  "itoa_text val radix =
     (if val < 0 \<and> radix = 10 then CHR ''-'' # numeral_text 10 (nat (- val))
      else numeral_text radix (nat (val mod 65536)))"

fun store_bytes :: "nat \<Rightarrow> string \<Rightarrow> 'h mcu \<Rightarrow> 'h mcu" where
  "store_bytes p [] s = s"
| "store_bytes p (c # cs) s =
     store_bytes (Suc p) cs (s\<lparr>frame := (frame s)(p := c), stored := stored s @ [p]\<rparr>)"

definition itoa :: "int \<Rightarrow> nat \<Rightarrow> nat \<Rightarrow> 'h mcu \<Rightarrow> 'h mcu" where
  "itoa val p radix s = store_bytes p (itoa_text val radix @ [NUL]) s"

text \<open>
  \<^verbatim>\<open>uart_puts(s)\<close> of the UART library (also outside the sources at hand) hands the
  characters of the C string at \<open>s\<close> to the transmitter, up to its terminating NUL.
  Reading a C string from memory stops at the first NUL and has no other bound.
\<close>

partial_function (option) c_string :: "(nat \<Rightarrow> char) \<Rightarrow> nat \<Rightarrow> string option" where
  "c_string m p =
     (if m p = NUL then Some [] else do { t \<leftarrow> c_string m (Suc p); Some (m p # t) })"

definition uart_puts :: "string \<Rightarrow> 'h mcu \<Rightarrow> 'h mcu" where
  "uart_puts t s = s\<lparr>uart := uart s @ takeWhile (\<lambda>c. c \<noteq> NUL) t\<rparr>"

section \<open>The scanner\<close>

text \<open>
  The body of the loop of \<^verbatim>\<open>twi_scan\<close>, for one value of \<^verbatim>\<open>sla\<close>. The argument
  \<^verbatim>\<open>(sla<<1) | TWI_WRITE\<close> is computed in \<^verbatim>\<open>int\<close> and converted to \<^verbatim>\<open>uint8_t\<close> for
  the call, which is the shift and the or on 8-bit words. \<^verbatim>\<open>uart_puts(string)\<close> reads
  the C string back from the memory \<^verbatim>\<open>itoa\<close> wrote.
\<close>

definition twi_scan_body :: "'h twi_hw \<Rightarrow> twi_h \<Rightarrow> byte \<Rightarrow> 'h mcu \<Rightarrow> 'h mcu option" where
  "twi_scan_body H cfg sla s =
     do {
       s1 \<leftarrow> twi_start H s;
       (ack, s2) \<leftarrow> twi_write H (push_bit 1 sla OR TWI_WRITE cfg) s1;
       let s3 = twi_stop H s2
       in if ack = 0
          then do {
            let s4 = uart_puts [CR, LF] s3;
            let s5 = itoa (uint sla) 0 16 s4;
            t \<leftarrow> c_string (frame s5) 0;
            Some (uart_puts t s5)
          }
          else Some s3
     }"

text \<open>\<^verbatim>\<open>for (uint8_t sla = 8; sla < 120; sla++)\<close>\<close>

function twi_scan_from :: "'h twi_hw \<Rightarrow> twi_h \<Rightarrow> byte \<Rightarrow> 'h mcu \<Rightarrow> 'h mcu option" where
  "twi_scan_from H cfg sla s =
     (if sla < 120
      then do { s' \<leftarrow> twi_scan_body H cfg sla s; twi_scan_from H cfg (sla + 1) s' }
      else Some s)"
  by pat_completeness auto
termination
  by (relation "measure (\<lambda>(H, cfg, sla, s). 120 - unat sla)")
     (auto simp: word_less_nat_alt unat_word_ariths)

definition twi_scan :: "'h twi_hw \<Rightarrow> twi_h \<Rightarrow> 'h mcu \<Rightarrow> 'h mcu option" where
  "twi_scan H cfg s = twi_scan_from H cfg 8 s"

section \<open>A simulated bus\<close>

text \<open>
  A small deterministic peripheral for running the driver: a command written to TWCR
  completes after two further loads of TWCR, a stop command raises no flag, and an
  address byte is acknowledged exactly by the devices listed. As on the device, the
  low bit of the address byte is the direction: with the bit clear the status is that
  of SLA+W (\<^verbatim>\<open>0x18\<close> with ACK, \<^verbatim>\<open>0x20\<close> without), with the bit set that of SLA+R
  (\<^verbatim>\<open>0x40\<close> with ACK, \<^verbatim>\<open>0x48\<close> without).
\<close>

record sim_twi =
  cr :: byte
  dr :: byte
  sr :: byte
  lag :: nat
  pending :: bool

definition sim_store_TWCR :: "nat list \<Rightarrow> byte \<Rightarrow> sim_twi \<Rightarrow> sim_twi" where
  "sim_store_TWCR devs v h =
     (if bit v TWSTO then h\<lparr>cr := v AND 0x7f, pending := False\<rparr>
      else if bit v TWSTA then h\<lparr>cr := v AND 0x7f, sr := 0x08, lag := 2, pending := True\<rparr>
      else h\<lparr>cr := v AND 0x7f,
             sr := (if unat (drop_bit 1 (dr h)) \<in> set devs
                    then (if bit (dr h) 0 then 0x40 else 0x18)
                    else (if bit (dr h) 0 then 0x48 else 0x20)),
             lag := 2, pending := True\<rparr>)"

definition sim_load_TWCR :: "sim_twi \<Rightarrow> byte \<times> sim_twi" where
  "sim_load_TWCR h =
     (if pending h
      then (if lag h = 0 then (cr h OR 0x80, h\<lparr>cr := cr h OR 0x80, pending := False\<rparr>)
            else (cr h, h\<lparr>lag := lag h - 1\<rparr>))
      else (cr h, h))"

definition sim_bus :: "nat list \<Rightarrow> sim_twi twi_hw" where
  "sim_bus devs =
     \<lparr>store_TWCR = sim_store_TWCR devs,
      store_TWDR = (\<lambda>v h. h\<lparr>dr := v\<rparr>),
      load_TWCR = sim_load_TWCR,
      load_TWSR = (\<lambda>h. (sr h, h)),
      load_TWDR = (\<lambda>h. (dr h, h))\<rparr>"

definition sim_idle :: sim_twi where
  "sim_idle = \<lparr>cr = 0, dr = 0, sr = 0xf8, lag = 0, pending = False\<rparr>"

definition mcu0 :: "sim_twi mcu" where
  "mcu0 = \<lparr>twi = sim_idle, regw = [], uart = [], frame = (\<lambda>p. CHR 0xFF), stored = []\<rparr>"

text \<open>A peripheral that never raises TWINT: every load of TWCR returns 0.\<close>

definition dead_bus :: "unit twi_hw" where
  "dead_bus =
     \<lparr>store_TWCR = (\<lambda>v h. h),
      store_TWDR = (\<lambda>v h. h),
      load_TWCR = (\<lambda>h. (0, h)),
      load_TWSR = (\<lambda>h. (0xf8, h)),
      load_TWDR = (\<lambda>h. (0, h))\<rparr>"

definition dead0 :: "unit mcu" where
  "dead0 = \<lparr>twi = (), regw = [], uart = [], frame = (\<lambda>p. CHR 0xFF), stored = []\<rparr>"

definition cfg0 :: twi_h where
  "cfg0 = \<lparr>TWI_WRITE = 0, TWI_ACK = 0\<rparr>"

section \<open>Notions the properties are stated with\<close>

text \<open>
  The hardware state after \<open>n\<close> loads of TWCR, and whether the load after those
  returns TWCR with the TWINT flag set.
\<close>

fun polled :: "'h twi_hw \<Rightarrow> nat \<Rightarrow> 'h \<Rightarrow> 'h" where
  "polled H 0 h = h"
| "polled H (Suc n) h = polled H n (snd (load_TWCR H h))"

definition TWINT_seen :: "'h twi_hw \<Rightarrow> nat \<Rightarrow> 'h \<Rightarrow> bool" where
  "TWINT_seen H n h = (fst (load_TWCR H (polled H n h)) AND push_bit TWINT 1 \<noteq> 0)"

text \<open>The bytes stored to TWDR in a log of register stores, in order.\<close>

fun TWDR_stores :: "reg_write list \<Rightarrow> byte list" where
  "TWDR_stores [] = []"
| "TWDR_stores (Set_TWDR b # l) = b # TWDR_stores l"
| "TWDR_stores (Set_TWCR b # l) = TWDR_stores l"

text \<open>
  The register stores of one probe of address \<open>a\<close>: the start command, the address
  byte, the transfer command, the stop command.
\<close>

definition probe_stores :: "twi_h \<Rightarrow> nat \<Rightarrow> reg_write list" where
  "probe_stores cfg a =
     [Set_TWCR 0xA4, Set_TWDR (push_bit 1 (of_nat a) OR TWI_WRITE cfg), Set_TWCR 0x84,
      Set_TWCR 0x94]"

text \<open>
  The two-character hexadecimal encoding of an address below 256, and the line the
  scanner reports for an address: CR, LF and the numeral \<^verbatim>\<open>itoa\<close> produces.
\<close>

definition hex2 :: "nat \<Rightarrow> string" where
  "hex2 a = [digit_char (a div 16), digit_char (a mod 16)]"

definition report :: "nat \<Rightarrow> string" where
  "report a = [CR, LF] @ numeral_text 16 a"

text \<open>
  A bus on which exactly the devices at the addresses in \<open>D\<close> respond: whatever the
  state, the start and the address byte of a probe of a candidate address complete,
  and the address byte is acknowledged exactly when the address is in \<open>D\<close>.
\<close>

definition responding :: "'h twi_hw \<Rightarrow> twi_h \<Rightarrow> nat set \<Rightarrow> bool" where
  "responding H cfg D =
     (\<forall>s. \<forall>a \<in> {8..<120}. \<exists>s1 ack s2.
        twi_start H s = Some s1 \<and>
        twi_write H (push_bit 1 (of_nat a) OR TWI_WRITE cfg) s1 = Some (ack, s2) \<and>
        (ack = 0) = (a \<in> D))"

text \<open>
  The 7-bit addresses put on the bus in a log of register stores: the bytes stored
  to TWDR without their direction bit.
\<close>

definition probed :: "reg_write list \<Rightarrow> byte list" where
  "probed l = map (drop_bit 1) (TWDR_stores l)"

text \<open>
  The state after the scanner has reported \<^verbatim>\<open>sla\<close>: the line break is handed to the
  UART, \<^verbatim>\<open>itoa\<close> has written the numeral to \<^verbatim>\<open>string\<close>, and the numeral is handed to
  the UART.
\<close>

definition reported :: "byte \<Rightarrow> 'h mcu \<Rightarrow> 'h mcu" where
  "reported sla s =
     uart_puts (numeral_text 16 (unat sla)) (itoa (uint sla) 0 16 (uart_puts [CR, LF] s))"


section \<open>The busy-wait loop\<close>

text \<open>
  The recursive equations of the numeral and of the scanner's loop are unfolded by
  hand where needed.
\<close>

declare numeral_text.simps [simp del] twi_scan_from.simps [simp del]

lemma wait_TWINT_set:
  "fst (load_TWCR H (twi s)) AND push_bit TWINT 1 \<noteq> 0 \<Longrightarrow>
   wait_TWINT H s = Some (s\<lparr>twi := snd (load_TWCR H (twi s))\<rparr>)"
  by (subst wait_TWINT.simps) simp

lemma wait_TWINT_clear:
  "fst (load_TWCR H (twi s)) AND push_bit TWINT 1 = 0 \<Longrightarrow>
   wait_TWINT H s = wait_TWINT H (s\<lparr>twi := snd (load_TWCR H (twi s))\<rparr>)"
  by (subst wait_TWINT.simps) simp

lemma wait_TWINT_returns:
  "TWINT_seen H n (twi s) \<Longrightarrow> \<exists>s'. wait_TWINT H s = Some s'"
proof (induction n arbitrary: s)
  case 0
  then show ?case by (simp add: TWINT_seen_def wait_TWINT_set)
next
  case (Suc n)
  show ?case
  proof (cases "fst (load_TWCR H (twi s)) AND push_bit TWINT 1 = 0")
    case True
    from Suc.prems have "TWINT_seen H n (twi (s\<lparr>twi := snd (load_TWCR H (twi s))\<rparr>))"
      by (simp add: TWINT_seen_def)
    from Suc.IH [OF this] show ?thesis by (simp add: wait_TWINT_clear [OF True])
  next
    case False
    then show ?thesis by (simp add: wait_TWINT_set)
  qed
qed

lemma wait_TWINT_seen:
  "wait_TWINT H s = Some s' \<Longrightarrow> \<exists>n. TWINT_seen H n (twi s)"
proof (induction rule: wait_TWINT.raw_induct [rotated 1, consumes 1, case_names step])
  case (step wait H s s')
  show ?case
  proof (cases "fst (load_TWCR H (twi s)) AND push_bit TWINT 1 = 0")
    case True
    with step obtain n where "TWINT_seen H n (snd (load_TWCR H (twi s)))"
      by fastforce
    then have "TWINT_seen H (Suc n) (twi s)" by (simp add: TWINT_seen_def)
    then show ?thesis ..
  next
    case False
    then have "TWINT_seen H 0 (twi s)" by (simp add: TWINT_seen_def)
    then show ?thesis ..
  qed
qed

lemma wait_TWINT_iff:
  "(\<exists>s'. wait_TWINT H s = Some s') = (\<exists>n. TWINT_seen H n (twi s))"
  using wait_TWINT_returns wait_TWINT_seen by blast

lemma wait_TWINT_frame:
  "wait_TWINT H s = Some s' \<Longrightarrow> s' = s\<lparr>twi := twi s'\<rparr>"
proof (induction rule: wait_TWINT.raw_induct [rotated 1, consumes 1, case_names step])
  case (step wait H s s')
  show ?case
  proof (cases "fst (load_TWCR H (twi s)) AND push_bit TWINT 1 = 0")
    case True
    with step have "s' = s\<lparr>twi := snd (load_TWCR H (twi s))\<rparr>\<lparr>twi := twi s'\<rparr>" by simp
    then show ?thesis by simp
  next
    case False
    with step show ?thesis by auto
  qed
qed

lemma twi_start_eq: "twi_start H s = wait_TWINT H (wr_TWCR H 0xA4 s)"
  by (simp add: twi_start_def TWINT_def TWSTA_def TWEN_def)

lemma twi_stop_eq: "twi_stop H s = wr_TWCR H 0x94 s"
  by (simp add: twi_stop_def TWINT_def TWSTO_def TWEN_def)

lemma twi_write_eq:
  "twi_write H data s =
     (case wait_TWINT H (wr_TWCR H 0x84 (wr_TWDR H data s)) of
        None \<Rightarrow> None
      | Some s1 \<Rightarrow>
          Some (if fst (load_TWSR H (twi s1)) AND 0xf8 \<in> {0x18, 0x28, 0x40} then 0 else 1,
                s1\<lparr>twi := snd (load_TWSR H (twi s1))\<rparr>))"
  by (simp add: twi_write_def TWINT_def TWEN_def Let_def split: option.split)

lemma twi_read_eq:
  "twi_read H cfg ack s =
     (case wait_TWINT H (wr_TWCR H (if ack = TWI_ACK cfg then 0xC4 else 0x84) s) of
        None \<Rightarrow> None
      | Some s1 \<Rightarrow> Some (fst (load_TWDR H (twi s1)), s1\<lparr>twi := snd (load_TWDR H (twi s1))\<rparr>))"
  by (simp add: twi_read_def TWINT_def TWEN_def TWEA_def split: option.split)

lemma TWINT_mask: "(push_bit TWINT 1 :: byte) = 0x80"
  by (simp add: TWINT_def)

lemma wait_TWINT_None_iff:
  "(wait_TWINT H s = None) = (\<forall>n. \<not> TWINT_seen H n (twi s))"
  using wait_TWINT_iff [of H s] by auto

lemma byte_eq_iff:
  fixes a b :: byte
  shows "(a = b) = (\<forall>n<8. bit a n = bit b n)"
  by (auto intro: bit_word_eqI)

lemma all_less_8:
  "(\<forall>n<8. P n) = (P 0 \<and> P 1 \<and> P 2 \<and> P 3 \<and> P 4 \<and> P 5 \<and> P 6 \<and> P (7::nat))"
proof -
  have "{..<8::nat} = {0,1,2,3,4,5,6,7}" by auto
  then have "(\<forall>n \<in> {..<8}. P n) = (\<forall>n \<in> {0,1,2,3,4,5,6,7}. P n)" by simp
  moreover have "(\<forall>n<8. P n) = (\<forall>n \<in> {..<8}. P n)" by auto
  ultimately show ?thesis by simp
qed

lemma top_five_bits:
  fixes v :: byte
  shows "(v AND 0xf8 = 0x18) = (drop_bit 3 v = 3)"
    and "(v AND 0xf8 = 0x28) = (drop_bit 3 v = 5)"
    and "(v AND 0xf8 = 0x40) = (drop_bit 3 v = 8)"
  by (auto simp add: byte_eq_iff [of "v AND _"] byte_eq_iff [of "drop_bit 3 v"] all_less_8 bit_simps dest: bit_imp_le_length)

lemmas sim_defs = sim_bus_def sim_store_TWCR_def sim_load_TWCR_def sim_idle_def mcu0_def
  wr_TWCR_def wr_TWDR_def TWINT_def TWSTA_def TWSTO_def TWEN_def TWEA_def

lemma polled_dead: "polled dead_bus n h = h"
  by (induction n) (simp_all add: dead_bus_def)

section \<open>Memory, numerals and C strings\<close>

lemma store_bytes_fields [simp]:
  "twi (store_bytes p cs s) = twi s"
  "regw (store_bytes p cs s) = regw s"
  "uart (store_bytes p cs s) = uart s"
  by (induction p cs s rule: store_bytes.induct) simp_all

lemma stored_store_bytes:
  "stored (store_bytes p cs s) = stored s @ [p..<p + length cs]"
  by (induction p cs s rule: store_bytes.induct) (simp_all add: upt_conv_Cons del: upt_Suc)

lemma frame_store_bytes:
  "frame (store_bytes p cs s) q =
     (if p \<le> q \<and> q < p + length cs then cs ! (q - p) else frame s q)"
proof (induction p cs s rule: store_bytes.induct)
  case (1 p s)
  show ?case by auto
next
  case (2 p c cs s)
  show ?case
  proof (cases "q = p")
    case True
    with 2 show ?thesis by simp
  next
    case False
    with 2 show ?thesis by (auto simp add: nth_Cons' Suc_diff_le)
  qed
qed

lemma c_string_reads:
  "\<lbrakk>\<forall>i<length t. m (p + i) = t ! i; m (p + length t) = NUL; NUL \<notin> set t\<rbrakk>
   \<Longrightarrow> c_string m p = Some t"
proof (induction t arbitrary: p)
  case Nil
  then show ?case by (subst c_string.simps) simp
next
  case (Cons c t)
  from Cons.prems(1) have "m (p + 0) = (c # t) ! 0" by blast
  then have c: "m p = c" by simp
  have "\<forall>i<length t. m (Suc p + i) = t ! i"
  proof (intro allI impI)
    fix i assume "i < length t"
    then have "Suc i < length (c # t)" by simp
    with Cons.prems(1) have "m (p + Suc i) = (c # t) ! Suc i" by blast
    then show "m (Suc p + i) = t ! i" by simp
  qed
  moreover from Cons.prems(2) have "m (Suc p + length t) = NUL" by simp
  moreover from Cons.prems(3) have "NUL \<notin> set t" by simp
  ultimately have "c_string m (Suc p) = Some t" by (rule Cons.IH)
  with c Cons.prems(3) show ?case by (subst c_string.simps) auto
qed

lemma c_string_after_store:
  "NUL \<notin> set t \<Longrightarrow> c_string (frame (store_bytes p (t @ [NUL]) s)) p = Some t"
  by (rule c_string_reads) (simp_all add: frame_store_bytes nth_append)

lemma digit_char_not_NUL: "d < 36 \<Longrightarrow> digit_char d \<noteq> NUL"
proof -
  assume "d < 36"
  then have "digit_char d \<in> set ''0123456789abcdefghijklmnopqrstuvwxyz''"
    unfolding digit_char_def by (intro nth_mem) simp
  then show ?thesis by (auto simp add: NUL_def)
qed

lemma numeral_text_16:
  "n < 256 \<Longrightarrow> numeral_text 16 n = (if n < 16 then [digit_char n] else hex2 n)"
proof -
  assume "n < 256"
  then have "n div 16 < 16" by simp
  then show ?thesis
    by (simp add: hex2_def numeral_text.simps [of 16 n] numeral_text.simps [of 16 "n div 16"])
qed

lemma numeral_text_16_no_NUL: "n < 256 \<Longrightarrow> NUL \<notin> set (numeral_text 16 n)"
proof -
  assume n: "n < 256"
  then have "n div 16 < 36" and "n mod 16 < 36" and "n < 16 \<Longrightarrow> n < 36" by simp_all
  then have "digit_char (n div 16) \<noteq> NUL" and "digit_char (n mod 16) \<noteq> NUL"
    and "n < 16 \<Longrightarrow> digit_char n \<noteq> NUL"
    by (simp_all add: digit_char_not_NUL)
  with n show ?thesis by (auto simp add: numeral_text_16 hex2_def simp del: numeral_text.simps)
qed

lemma itoa_text_byte: "itoa_text (uint (sla :: byte)) 16 = numeral_text 16 (unat sla)"
proof -
  have "uint sla < 256" using uint_bounded [of sla] by simp
  then have "uint sla mod 65536 = uint sla" by simp
  then show ?thesis by (simp add: itoa_text_def)
qed


lemma unat_byte_less: "unat (b :: byte) < 256"
  using unsigned_less [of b] by simp

lemma wait_TWINT_fields:
  assumes "wait_TWINT H s = Some s'"
  shows "regw s' = regw s" and "uart s' = uart s" and "frame s' = frame s"
    and "stored s' = stored s"
proof -
  from assms have e: "s' = s\<lparr>twi := twi s'\<rparr>" by (rule wait_TWINT_frame)
  from arg_cong [OF e, of regw] show "regw s' = regw s" by simp
  from arg_cong [OF e, of uart] show "uart s' = uart s" by simp
  from arg_cong [OF e, of frame] show "frame s' = frame s" by simp
  from arg_cong [OF e, of stored] show "stored s' = stored s" by simp
qed

lemma twi_start_fields:
  assumes "twi_start H s = Some s1"
  shows "regw s1 = regw s @ [Set_TWCR 0xA4]" and "uart s1 = uart s"
    and "frame s1 = frame s" and "stored s1 = stored s"
  using wait_TWINT_fields [OF assms [unfolded twi_start_eq]]
  by (simp_all add: wr_TWCR_def)

lemma twi_write_fields:
  assumes "twi_write H b s = Some (r, s2)"
  shows "regw s2 = regw s @ [Set_TWDR b, Set_TWCR 0x84]" and "uart s2 = uart s"
    and "frame s2 = frame s" and "stored s2 = stored s"
proof -
  from assms obtain s1 where w: "wait_TWINT H (wr_TWCR H 0x84 (wr_TWDR H b s)) = Some s1"
    and s2: "s2 = s1\<lparr>twi := snd (load_TWSR H (twi s1))\<rparr>"
    by (auto simp add: twi_write_eq split: option.splits)
  from wait_TWINT_fields [OF w] s2
  show "regw s2 = regw s @ [Set_TWDR b, Set_TWCR 0x84]" and "uart s2 = uart s"
    and "frame s2 = frame s" and "stored s2 = stored s"
    by (simp_all add: wr_TWCR_def wr_TWDR_def)
qed

lemma twi_stop_fields:
  "regw (twi_stop H s) = regw s @ [Set_TWCR 0x94]" "uart (twi_stop H s) = uart s"
  "frame (twi_stop H s) = frame s" "stored (twi_stop H s) = stored s"
  by (simp_all add: twi_stop_eq wr_TWCR_def)

lemma uart_puts_text:
  "NUL \<notin> set t \<Longrightarrow> uart_puts t s = s\<lparr>uart := uart s @ t\<rparr>"
proof -
  assume "NUL \<notin> set t"
  then have "takeWhile (\<lambda>c. c \<noteq> NUL) t = t" by (intro takeWhile_eq_all_conv [THEN iffD2]) auto
  then show ?thesis by (simp add: uart_puts_def)
qed

lemma CRLF_no_NUL: "NUL \<notin> set [CR, LF]"
  by (simp add: NUL_def CR_def LF_def)

lemma twi_scan_body_eq:
  assumes "twi_start H s = Some s1"
    and "twi_write H (push_bit 1 sla OR TWI_WRITE cfg) s1 = Some (ack, s2)"
  shows "twi_scan_body H cfg sla s =
           Some (if ack = 0 then reported sla (twi_stop H s2) else twi_stop H s2)"
proof -
  have "c_string (frame (itoa (uint sla) 0 16 s3)) 0 = Some (numeral_text 16 (unat sla))" for s3 :: "'a mcu"
    unfolding itoa_def itoa_text_byte
    by (rule c_string_after_store) (rule numeral_text_16_no_NUL, rule unat_byte_less)
  with assms show ?thesis
    by (simp add: twi_scan_body_def Let_def reported_def)
qed

lemma reported_fields:
  "twi (reported sla s) = twi s"
  "regw (reported sla s) = regw s"
  "uart (reported sla s) = uart s @ report (unat sla)"
  "stored (reported sla s) = stored s @ [0..<Suc (length (numeral_text 16 (unat sla)))]"
proof -
  have n: "NUL \<notin> set (numeral_text 16 (unat sla))"
    by (rule numeral_text_16_no_NUL) (rule unat_byte_less)
  show "twi (reported sla s) = twi s" "regw (reported sla s) = regw s"
    "uart (reported sla s) = uart s @ report (unat sla)"
    "stored (reported sla s) = stored s @ [0..<Suc (length (numeral_text 16 (unat sla)))]"
    by (simp_all add: reported_def uart_puts_text [OF n] uart_puts_text [OF CRLF_no_NUL]
        itoa_def itoa_text_byte stored_store_bytes report_def del: upt_Suc)
qed

lemma twi_scan_body_cases:
  assumes "twi_scan_body H cfg sla s = Some s'"
  obtains s1 ack s2 where "twi_start H s = Some s1"
    and "twi_write H (push_bit 1 sla OR TWI_WRITE cfg) s1 = Some (ack, s2)"
    and "s' = (if ack = 0 then reported sla (twi_stop H s2) else twi_stop H s2)"
proof -
  from assms obtain s1 where 1: "twi_start H s = Some s1"
    by (auto simp add: twi_scan_body_def split: bind_splits)
  with assms obtain ack s2 where 2: "twi_write H (push_bit 1 sla OR TWI_WRITE cfg) s1 = Some (ack, s2)"
    by (auto simp add: twi_scan_body_def split: bind_splits)
  from twi_scan_body_eq [OF 1 2] assms
  have "s' = (if ack = 0 then reported sla (twi_stop H s2) else twi_stop H s2)" by simp
  with 1 2 show thesis by (rule that)
qed

lemma twi_scan_body_regw:
  assumes "twi_scan_body H cfg sla s = Some s'"
  shows "regw s' = regw s @ probe_stores cfg (unat sla)"
proof -
  from assms obtain s1 ack s2 where 1: "twi_start H s = Some s1"
    and 2: "twi_write H (push_bit 1 sla OR TWI_WRITE cfg) s1 = Some (ack, s2)"
    and 3: "s' = (if ack = 0 then reported sla (twi_stop H s2) else twi_stop H s2)"
    by (rule twi_scan_body_cases)
  from twi_start_fields(1) [OF 1] twi_write_fields(1) [OF 2] 3 show ?thesis
    by (simp add: reported_fields twi_stop_fields probe_stores_def)
qed

lemma twi_scan_body_uart:
  assumes "twi_scan_body H cfg sla s = Some s'"
  shows "uart s' = uart s \<or> uart s' = uart s @ report (unat sla)"
proof -
  from assms obtain s1 ack s2 where 1: "twi_start H s = Some s1"
    and 2: "twi_write H (push_bit 1 sla OR TWI_WRITE cfg) s1 = Some (ack, s2)"
    and 3: "s' = (if ack = 0 then reported sla (twi_stop H s2) else twi_stop H s2)"
    by (rule twi_scan_body_cases)
  from twi_start_fields(2) [OF 1] twi_write_fields(2) [OF 2] 3 show ?thesis
    by (simp add: reported_fields twi_stop_fields)
qed

section \<open>The loop of the scanner\<close>

lemma sla_step:
  assumes "(sla :: byte) < 120"
  shows "unat sla < 120" and "unat (sla + 1) = Suc (unat sla)" and "sla + 1 \<le> 120"
proof -
  from assms show 1: "unat sla < 120" by (simp add: word_less_nat_alt)
  then show 2: "unat (sla + 1) = Suc (unat sla)" by (simp add: unat_word_ariths)
  with 1 show "sla + 1 \<le> 120" by (simp add: word_le_nat_alt)
qed

lemma sla_done:
  assumes "\<not> (sla :: byte) < 120" and "sla \<le> 120"
  shows "unat sla = 120"
  using assms by (simp add: word_less_nat_alt word_le_nat_alt)

lemma twi_scan_from_log:
  "twi_scan_from H cfg sla s = Some s' \<Longrightarrow> sla \<le> 120 \<Longrightarrow>
   regw s' = regw s @ concat (map (probe_stores cfg) [unat sla..<120])
   \<and> (\<exists>as. subseq as [unat sla..<120] \<and> uart s' = uart s @ concat (map report as))"
proof (induction H cfg sla s rule: twi_scan_from.induct)
  case (1 H cfg sla s)
  show ?case
  proof (cases "sla < 120")
    case True
    with "1.prems"(1) obtain s'' where b: "twi_scan_body H cfg sla s = Some s''"
      and r: "twi_scan_from H cfg (sla + 1) s'' = Some s'"
      by (subst (asm) twi_scan_from.simps) (auto split: bind_splits)
    note st = sla_step [OF True]
    from "1.IH" [OF True b r st(3)] obtain as where
      l: "regw s' = regw s'' @ concat (map (probe_stores cfg) [Suc (unat sla)..<120])"
      and sub: "subseq as [Suc (unat sla)..<120]"
      and u: "uart s' = uart s'' @ concat (map report as)"
      by (auto simp add: st(2))
    have up: "[unat sla..<120] = unat sla # [Suc (unat sla)..<120]"
      using st(1) by (simp add: upt_conv_Cons)
    from l twi_scan_body_regw [OF b]
    have "regw s' = regw s @ concat (map (probe_stores cfg) [unat sla..<120])"
      by (simp add: up)
    moreover from twi_scan_body_uart [OF b]
    have "\<exists>as. subseq as [unat sla..<120] \<and> uart s' = uart s @ concat (map report as)"
    proof
      assume "uart s'' = uart s"
      with u sub have "subseq as [unat sla..<120] \<and> uart s' = uart s @ concat (map report as)"
        by (simp add: up list_emb_Cons)
      then show ?thesis ..
    next
      assume "uart s'' = uart s @ report (unat sla)"
      with u sub have "subseq (unat sla # as) [unat sla..<120]
          \<and> uart s' = uart s @ concat (map report (unat sla # as))"
        by (simp add: up)
      then show ?thesis ..
    qed
    ultimately show ?thesis ..
  next
    case False
    with "1.prems"(1) have "s' = s" by (subst (asm) twi_scan_from.simps) simp
    moreover from False "1.prems"(2) have "unat sla = 120" by (rule sla_done)
    ultimately have "regw s' = regw s @ concat (map (probe_stores cfg) [unat sla..<120])"
      and "subseq [] [unat sla..<120] \<and> uart s' = uart s @ concat (map report [])"
      by simp_all
    then show ?thesis by blast
  qed
qed

lemma twi_scan_from_responding:
  "responding H cfg D \<Longrightarrow> 8 \<le> sla \<Longrightarrow> sla \<le> 120 \<Longrightarrow>
   \<exists>s'. twi_scan_from H cfg sla s = Some s'
     \<and> uart s' = uart s @ concat (map report (filter (\<lambda>a. a \<in> D) [unat sla..<120]))"
proof (induction H cfg sla s rule: twi_scan_from.induct)
  case (1 H cfg sla s)
  show ?case
  proof (cases "sla < 120")
    case True
    note st = sla_step [OF True]
    from "1.prems"(2) have "8 \<le> unat sla" by (simp add: word_le_nat_alt)
    with st(1) have "unat sla \<in> {8..<120}" by simp
    with "1.prems"(1) obtain s1 ack s2 where a: "twi_start H s = Some s1"
      and w: "twi_write H (push_bit 1 (of_nat (unat sla)) OR TWI_WRITE cfg) s1 = Some (ack, s2)"
      and d: "(ack = 0) = (unat sla \<in> D)"
      unfolding responding_def by blast
    from w have w': "twi_write H (push_bit 1 sla OR TWI_WRITE cfg) s1 = Some (ack, s2)" by simp
    let ?s'' = "if ack = 0 then reported sla (twi_stop H s2) else twi_stop H s2"
    have b: "twi_scan_body H cfg sla s = Some ?s''" by (rule twi_scan_body_eq [OF a w'])
    have u'': "uart ?s'' = uart s @ (if unat sla \<in> D then report (unat sla) else [])"
      using twi_start_fields(2) [OF a] twi_write_fields(2) [OF w'] d
      by (simp add: reported_fields twi_stop_fields)
    from "1.prems"(2) have "8 \<le> sla + 1"
      using st by (simp add: word_le_nat_alt)
    from "1.IH" [OF True b "1.prems"(1) this st(3)] obtain s' where
      r: "twi_scan_from H cfg (sla + 1) ?s'' = Some s'"
      and u: "uart s' = uart ?s'' @ concat (map report (filter (\<lambda>a. a \<in> D) [Suc (unat sla)..<120]))"
      by (auto simp add: st(2))
    have up: "[unat sla..<120] = unat sla # [Suc (unat sla)..<120]"
      using st(1) by (simp add: upt_conv_Cons)
    from b r True have "twi_scan_from H cfg sla s = Some s'"
      by (subst twi_scan_from.simps) simp
    moreover from u u'' have
      "uart s' = uart s @ concat (map report (filter (\<lambda>a. a \<in> D) [unat sla..<120]))"
      by (simp add: up)
    ultimately show ?thesis by blast
  next
    case False
    then have "twi_scan_from H cfg sla s = Some s" by (subst twi_scan_from.simps) simp
    moreover from False "1.prems"(3) have "unat sla = 120" by (rule sla_done)
    ultimately show ?thesis by simp
  qed
qed

lemma twi_scan_regw:
  assumes "twi_scan H cfg s = Some s'"
  shows "regw s' = regw s @ concat (map (probe_stores cfg) [8..<120])"
    and "\<exists>as. subseq as [8..<120] \<and> uart s' = uart s @ concat (map report as)"
proof -
  have le: "(8 :: byte) \<le> 120" by simp
  have u: "unat (8 :: byte) = 8" by simp
  from twi_scan_from_log [OF assms [unfolded twi_scan_def] le]
  show "regw s' = regw s @ concat (map (probe_stores cfg) [8..<120])"
    and "\<exists>as. subseq as [8..<120] \<and> uart s' = uart s @ concat (map report as)"
    by (simp_all only: u)
qed

lemma twi_scan_responding:
  assumes "responding H cfg D"
  shows "\<exists>s'. twi_scan H cfg s = Some s'
     \<and> uart s' = uart s @ concat (map report (filter (\<lambda>a. a \<in> D) [8..<120]))"
proof -
  have le: "(8 :: byte) \<le> 8" "(8 :: byte) \<le> 120" by simp_all
  have u: "unat (8 :: byte) = 8" by simp
  from twi_scan_from_responding [OF assms le, of s] show ?thesis
    by (simp only: u twi_scan_def)
qed

section \<open>The addresses probed\<close>

lemma unat_shifted_address:
  "a < 128 \<Longrightarrow> unat (drop_bit 1 (push_bit 1 (of_nat a :: byte))) = a"
  by (simp add: unat_drop_bit_eq drop_bit_eq_div unat_word_ariths unat_of_nat)

lemma TWDR_stores_append: "TWDR_stores (xs @ ys) = TWDR_stores xs @ TWDR_stores ys"
  by (induction xs rule: TWDR_stores.induct) simp_all

lemma TWDR_stores_probes:
  "TWDR_stores (concat (map (probe_stores cfg) as))
     = map (\<lambda>a. push_bit 1 (of_nat a) OR TWI_WRITE cfg) as"
  by (induction as) (simp_all add: TWDR_stores_append, simp add: probe_stores_def)

lemma direction_bit_cases: "(W :: byte) \<le> 1 \<Longrightarrow> W = 0 \<or> W = 1"
  by (auto simp add: word_le_nat_alt word_unat_eq_iff)

lemma drop_bit_address:
  assumes "a < 128" and "(W :: byte) \<le> 1"
  shows "drop_bit 1 (push_bit 1 (of_nat a) OR W) = (of_nat a :: byte)"
proof -
  from assms(2) have "drop_bit 1 W = 0" by (auto dest: direction_bit_cases)
  moreover have "drop_bit 1 (push_bit 1 (of_nat a :: byte)) = of_nat a"
    using unat_shifted_address [OF assms(1)] assms(1)
    by (simp add: word_unat_eq_iff unat_of_nat)
  ultimately show ?thesis by (simp only: drop_bit_or) simp
qed

lemma probed_probes:
  assumes "TWI_WRITE cfg \<le> 1" and "\<forall>a \<in> set as. a < 128"
  shows "probed (concat (map (probe_stores cfg) as)) = map of_nat as"
proof -
  have "\<forall>a \<in> set as. drop_bit 1 (push_bit 1 (of_nat a) OR TWI_WRITE cfg) = (of_nat a :: byte)"
    using assms(2) drop_bit_address [OF _ assms(1)] by blast
  then have "map (\<lambda>a. drop_bit 1 (push_bit 1 (of_nat a) OR TWI_WRITE cfg)) as
      = (map of_nat as :: byte list)"
    by (simp only: map_eq_conv)
  then show ?thesis by (simp only: probed_def TWDR_stores_probes map_map o_def)
qed

lemma candidates_set: "set (map of_nat [8..<120]) = {a :: byte. 8 \<le> a \<and> a \<le> 119}"
proof (intro set_eqI iffI)
  fix a :: byte
  assume "a \<in> set (map of_nat [8..<120])"
  then have "a \<in> of_nat ` {8..<120}" by (simp only: set_map set_upt)
  then obtain n where "n \<in> {8..<120}" and "a = of_nat n" by auto
  then show "a \<in> {a. 8 \<le> a \<and> a \<le> 119}"
    by (simp add: word_le_nat_alt unat_of_nat)
next
  fix a :: byte
  assume "a \<in> {a. 8 \<le> a \<and> a \<le> 119}"
  then have "unat a \<in> {8..<120}" by (simp add: word_le_nat_alt)
  then have "of_nat (unat a) \<in> (of_nat ` {8..<120} :: byte set)" by (rule imageI)
  moreover have "of_nat (unat a) = a" by simp
  ultimately show "a \<in> set (map of_nat [8..<120])" by (simp only: set_map set_upt)
qed

section \<open>The simulated bus responds as its device list says\<close>

lemma sim_start:
  "\<exists>s1. twi_start (sim_bus devs) s = Some s1"
  by (simp add: twi_start_eq sim_bus_def sim_store_TWCR_def sim_load_TWCR_def wr_TWCR_def
      TWINT_def TWSTA_def TWSTO_def wait_TWINT_set wait_TWINT_clear)

lemma sim_write:
  "\<exists>s2. twi_write (sim_bus devs) b s =
     Some (if unat (drop_bit 1 b) \<in> set devs then 0 else 1, s2)"
  by (simp add: twi_write_eq sim_bus_def sim_store_TWCR_def sim_load_TWCR_def wr_TWCR_def
      wr_TWDR_def TWINT_def TWSTA_def TWSTO_def wait_TWINT_set wait_TWINT_clear)



lemma sim_responding:
  assumes "TWI_WRITE cfg = 0"
  shows "responding (sim_bus devs) cfg (set devs)"
  unfolding responding_def
proof (intro allI ballI)
  fix s :: "sim_twi mcu" and a :: nat
  assume "a \<in> {8..<120}"
  then have a: "unat (drop_bit 1 (push_bit 1 (of_nat a :: byte))) = a"
    by (intro unat_shifted_address) simp
  obtain s1 where 1: "twi_start (sim_bus devs) s = Some s1" using sim_start by blast
  from sim_write [of devs "push_bit 1 (of_nat a)" s1] a obtain s2 where
    "twi_write (sim_bus devs) (push_bit 1 (of_nat a)) s1 = Some (if a \<in> set devs then 0 else 1, s2)"
    by auto
  with 1 assms
  show "\<exists>s1 ack s2. twi_start (sim_bus devs) s = Some s1 \<and>
          twi_write (sim_bus devs) (push_bit 1 (of_nat a) OR TWI_WRITE cfg) s1 = Some (ack, s2) \<and>
          (ack = 0) = (a \<in> set devs)"
    by auto
qed

section \<open>Properties of the bus driver\<close>

text \<open>
  C3. Whenever \<^verbatim>\<open>twi_write\<close> returns, the transfer has completed, and the value
  returned is 0 (acknowledged) or 1 (not acknowledged). It is 0 exactly when the
  status loaded from TWSR after the wait, masked with \<^verbatim>\<open>0xf8\<close>, is one of
  \<^verbatim>\<open>0x18\<close>, \<^verbatim>\<open>0x28\<close>, \<^verbatim>\<open>0x40\<close>, that is, exactly when the top five bits of the status
  are those of one of these three codes, whatever the low three bits; every other
  status gives 1.
\<close>

theorem twi_write_classifies:
  assumes "twi_write H data s = Some (r, s')"
  shows "\<exists>s1. wait_TWINT H (wr_TWCR H 0x84 (wr_TWDR H data s)) = Some s1
           \<and> s' = s1\<lparr>twi := snd (load_TWSR H (twi s1))\<rparr>
           \<and> (r = 0 \<or> r = 1)
           \<and> (r = 0) = (fst (load_TWSR H (twi s1)) AND 0xf8 \<in> {0x18, 0x28, 0x40})
           \<and> (r = 0) = (drop_bit 3 (fst (load_TWSR H (twi s1))) \<in> {3, 5, 8})"
proof -
  from assms obtain s1 where
    w: "wait_TWINT H (wr_TWCR H 0x84 (wr_TWDR H data s)) = Some s1" and
    r: "r = (if fst (load_TWSR H (twi s1)) AND 0xf8 \<in> {0x18, 0x28, 0x40} then 0 else 1)" and
    s': "s' = s1\<lparr>twi := snd (load_TWSR H (twi s1))\<rparr>"
    by (auto simp add: twi_write_eq split: option.splits)
  from r have "r = 0 \<or> r = 1"
    and "(r = 0) = (fst (load_TWSR H (twi s1)) AND 0xf8 \<in> {0x18, 0x28, 0x40})"
    by (auto split: if_splits)
  with w s' show ?thesis
    by (auto simp add: top_five_bits)
qed

theorem twi_write_classifies_witness:
  "twi_write (sim_bus [60]) 0x78 mcu0 =
     Some (0, \<lparr>twi = \<lparr>cr = 132, dr = 120, sr = 24, lag = 0, pending = False\<rparr>,
               regw = [Set_TWDR 120, Set_TWCR 132], uart = [], frame = (\<lambda>p. CHR 0xFF),
               stored = []\<rparr>)
   \<and> (\<exists>s1. wait_TWINT (sim_bus [60]) (wr_TWCR (sim_bus [60]) 0x84 (wr_TWDR (sim_bus [60]) 0x78 mcu0)) = Some s1
           \<and> drop_bit 3 (fst (load_TWSR (sim_bus [60]) (twi s1))) \<in> {3, 5, 8 :: byte})"
proof -
  have h: "twi_write (sim_bus [60]) 0x78 mcu0 =
     Some (0, \<lparr>twi = \<lparr>cr = 132, dr = 120, sr = 24, lag = 0, pending = False\<rparr>,
               regw = [Set_TWDR 120, Set_TWCR 132], uart = [], frame = (\<lambda>p. CHR 0xFF),
               stored = []\<rparr>)"
    by (simp add: twi_write_eq sim_defs wait_TWINT_set wait_TWINT_clear)
  from twi_write_classifies [OF h] h show ?thesis by auto
qed

text \<open>
  C9, as the driver has it. \<^verbatim>\<open>twi_start\<close>, \<^verbatim>\<open>twi_write\<close> and \<^verbatim>\<open>twi_read\<close> spin on
  TWINT with no bound: each returns exactly when some load of TWCR after the command
  has been stored shows the flag set, and never returns when no load ever does.
\<close>

theorem busy_wait_returns_iff:
  "(\<exists>s'. twi_start H s = Some s') = (\<exists>n. TWINT_seen H n (store_TWCR H 0xA4 (twi s)))
   \<and> (twi_start H s = None) = (\<forall>n. \<not> TWINT_seen H n (store_TWCR H 0xA4 (twi s)))
   \<and> (\<exists>r. twi_write H data s = Some r)
       = (\<exists>n. TWINT_seen H n (store_TWCR H 0x84 (store_TWDR H data (twi s))))
   \<and> (twi_write H data s = None)
       = (\<forall>n. \<not> TWINT_seen H n (store_TWCR H 0x84 (store_TWDR H data (twi s))))
   \<and> (\<exists>r. twi_read H cfg ack s = Some r)
       = (\<exists>n. TWINT_seen H n (store_TWCR H (if ack = TWI_ACK cfg then 0xC4 else 0x84) (twi s)))
   \<and> (twi_read H cfg ack s = None)
       = (\<forall>n. \<not> TWINT_seen H n (store_TWCR H (if ack = TWI_ACK cfg then 0xC4 else 0x84) (twi s)))"
proof -
  have st: "(twi_start H s = None) = (\<forall>n. \<not> TWINT_seen H n (store_TWCR H 0xA4 (twi s)))"
    by (simp add: twi_start_eq wait_TWINT_None_iff wr_TWCR_def)
  have wr: "(twi_write H data s = None)
       = (\<forall>n. \<not> TWINT_seen H n (store_TWCR H 0x84 (store_TWDR H data (twi s))))"
  proof -
    have "(twi_write H data s = None)
        = (wait_TWINT H (wr_TWCR H 0x84 (wr_TWDR H data s)) = None)"
      by (simp add: twi_write_eq split: option.split)
    then show ?thesis
      by (simp add: wait_TWINT_None_iff wr_TWCR_def wr_TWDR_def)
  qed
  have rd: "(twi_read H cfg ack s = None)
       = (\<forall>n. \<not> TWINT_seen H n (store_TWCR H (if ack = TWI_ACK cfg then 0xC4 else 0x84) (twi s)))"
  proof -
    have "(twi_read H cfg ack s = None)
        = (wait_TWINT H (wr_TWCR H (if ack = TWI_ACK cfg then 0xC4 else 0x84) s) = None)"
      by (simp add: twi_read_eq split: option.split)
    then show ?thesis
      by (simp add: wait_TWINT_None_iff wr_TWCR_def)
  qed
  from st have "(\<exists>s'. twi_start H s = Some s') = (\<exists>n. TWINT_seen H n (store_TWCR H 0xA4 (twi s)))"
    by auto
  moreover from wr have "(\<exists>r. twi_write H data s = Some r)
       = (\<exists>n. TWINT_seen H n (store_TWCR H 0x84 (store_TWDR H data (twi s))))"
    by auto
  moreover from rd have "(\<exists>r. twi_read H cfg ack s = Some r)
       = (\<exists>n. TWINT_seen H n (store_TWCR H (if ack = TWI_ACK cfg then 0xC4 else 0x84) (twi s)))"
    by auto
  ultimately show ?thesis using st wr rd by blast
qed

text \<open>
  C9 as stated speaks of every primitive of the driver. \<^verbatim>\<open>twi_stop\<close> is one of them
  and does not wait: on a peripheral that never raises TWINT, where \<^verbatim>\<open>twi_start\<close>
  never returns, \<^verbatim>\<open>twi_stop\<close> returns after its single store.
\<close>

theorem twi_stop_does_not_wait:
  "twi_start dead_bus dead0 = None
   \<and> twi_stop dead_bus dead0 = dead0\<lparr>regw := [Set_TWCR 0x94]\<rparr>"
proof -
  have "\<not> TWINT_seen dead_bus n h" for n h
    by (simp add: TWINT_seen_def polled_dead) (simp add: dead_bus_def)
  then have "twi_start dead_bus dead0 = None"
    by (simp add: twi_start_eq wait_TWINT_None_iff)
  then show ?thesis
    by (simp add: twi_stop_eq wr_TWCR_def dead0_def dead_bus_def)
qed

text \<open>
  C10. \<^verbatim>\<open>twi_stop\<close> stores the stop command to TWCR and returns: its result is
  the state after that one store, for every peripheral, and it does not depend on
  what any register load would return, so in particular not on TWINT.
\<close>

theorem twi_stop_returns_at_once:
  "twi_stop H s = s\<lparr>twi := store_TWCR H 0x94 (twi s), regw := regw s @ [Set_TWCR 0x94]\<rparr>
   \<and> twi_stop (H\<lparr>load_TWCR := f, load_TWSR := g, load_TWDR := k\<rparr>) s = twi_stop H s"
  by (simp add: twi_stop_eq wr_TWCR_def)

section \<open>Properties of the scanner\<close>

text \<open>
  C1, as the scanner has it. When the probe of \<^verbatim>\<open>sla\<close> is acknowledged, the pass of
  the loop returns and has handed to the UART exactly CR, LF and the hexadecimal
  numeral of \<^verbatim>\<open>sla\<close> as \<^verbatim>\<open>itoa\<close> writes it: lower case and without a leading zero,
  so one character for an address below 16 and two characters from 16 on. Nothing
  else is emitted, and the peripheral and the register stores are those of the
  probe.
\<close>

theorem scan_reports_hex_numeral:
  assumes "twi_start H s = Some s1"
    and "twi_write H (push_bit 1 sla OR TWI_WRITE cfg) s1 = Some (0, s2)"
  shows "\<exists>s'. twi_scan_body H cfg sla s = Some s'
           \<and> uart s' = uart s @ [CR, LF]
                 @ (if sla < 16 then [digit_char (unat sla)] else hex2 (unat sla))
           \<and> twi s' = twi (twi_stop H s2) \<and> regw s' = regw (twi_stop H s2)"
proof -
  have "twi_scan_body H cfg sla s = Some (reported sla (twi_stop H s2))"
    using twi_scan_body_eq [OF assms] by simp
  moreover have "uart (reported sla (twi_stop H s2)) = uart s @ report (unat sla)"
    using twi_start_fields(2) [OF assms(1)] twi_write_fields(2) [OF assms(2)]
    by (simp add: reported_fields twi_stop_fields)
  moreover have "report (unat sla)
      = [CR, LF] @ (if sla < 16 then [digit_char (unat sla)] else hex2 (unat sla))"
    by (simp add: report_def numeral_text_16 [OF unat_byte_less] word_less_nat_alt)
  ultimately show ?thesis by (simp add: reported_fields)
qed

theorem scan_reports_hex_numeral_witness:
  "\<exists>s1 s2 s'. twi_start (sim_bus [60]) mcu0 = Some s1
     \<and> twi_write (sim_bus [60]) (push_bit 1 60 OR TWI_WRITE cfg0) s1 = Some (0, s2)
     \<and> twi_scan_body (sim_bus [60]) cfg0 60 mcu0 = Some s'
     \<and> uart s' = [CR, LF] @ ''3c''"
proof -
  obtain s1 where 1: "twi_start (sim_bus [60]) mcu0 = Some s1" using sim_start by blast
  from sim_write [of "[60]" "push_bit 1 60 OR TWI_WRITE cfg0" s1]
  obtain s2 where 2: "twi_write (sim_bus [60]) (push_bit 1 60 OR TWI_WRITE cfg0) s1 = Some (0, s2)"
    by (auto simp add: cfg0_def)
  from scan_reports_hex_numeral [OF 1 2] obtain s' where
    "twi_scan_body (sim_bus [60]) cfg0 60 mcu0 = Some s'"
    and "uart s' = uart mcu0 @ [CR, LF] @ (if (60 :: byte) < 16 then [digit_char (unat (60 :: byte))] else hex2 (unat (60 :: byte)))"
    by blast
  then have "twi_scan_body (sim_bus [60]) cfg0 60 mcu0 = Some s' \<and> uart s' = [CR, LF] @ ''3c''"
    by (simp add: mcu0_def hex2_def digit_char_def)
  with 1 2 show ?thesis by blast
qed

text \<open>
  C1 as stated asks for two characters for every candidate. Address 8 is a candidate;
  when it acknowledges, the line is CR, LF and the single character 8, and not the
  two-character encoding 08.
\<close>

theorem scan_reports_8_with_one_digit:
  "map_option uart (twi_scan_body (sim_bus [8]) cfg0 8 mcu0) = Some [CR, LF, CHR ''8'']
   \<and> map_option uart (twi_scan_body (sim_bus [8]) cfg0 8 mcu0) \<noteq> Some ([CR, LF] @ hex2 8)
   \<and> hex2 8 = ''08''"
proof -
  obtain s1 where 1: "twi_start (sim_bus [8]) mcu0 = Some s1" using sim_start by blast
  from sim_write [of "[8]" "push_bit 1 8 OR TWI_WRITE cfg0" s1]
  obtain s2 where 2: "twi_write (sim_bus [8]) (push_bit 1 8 OR TWI_WRITE cfg0) s1 = Some (0, s2)"
    by (auto simp add: cfg0_def)
  have "uart (reported 8 (twi_stop (sim_bus [8]) s2)) = [CR, LF, CHR ''8'']"
    using twi_start_fields(2) [OF 1] twi_write_fields(2) [OF 2]
    by (simp add: reported_fields twi_stop_fields report_def numeral_text_16 digit_char_def mcu0_def)
  with twi_scan_body_eq [OF 1 2] show ?thesis
    by (simp add: hex2_def digit_char_def)
qed

text \<open>
  C2 fails on the code. \<^verbatim>\<open>string\<close> has two elements. For an acknowledged address
  from 16 on, here \<^verbatim>\<open>0x3c\<close>, \<^verbatim>\<open>itoa\<close> stores two digits and the terminating NUL: the
  stores go to offsets 0, 1 and 2, and offset 2 is past the end of the buffer.
\<close>

theorem scan_overruns_string_at_0x3c:
  "map_option stored (twi_scan_body (sim_bus [60]) cfg0 60 mcu0) = Some [0, 1, 2]"
proof -
  obtain s1 where 1: "twi_start (sim_bus [60]) mcu0 = Some s1" using sim_start by blast
  from sim_write [of "[60]" "push_bit 1 60 OR TWI_WRITE cfg0" s1]
  obtain s2 where 2: "twi_write (sim_bus [60]) (push_bit 1 60 OR TWI_WRITE cfg0) s1 = Some (0, s2)"
    by (auto simp add: cfg0_def)
  have "stored (reported 60 (twi_stop (sim_bus [60]) s2)) = [0, 1, 2]"
    using twi_start_fields(4) [OF 1] twi_write_fields(4) [OF 2]
    by (simp add: reported_fields twi_stop_fields numeral_text_16 hex2_def mcu0_def upt_rec)
  with twi_scan_body_eq [OF 1 2] show ?thesis by simp
qed

text \<open>
  C4. In a run of \<^verbatim>\<open>twi_scan\<close> that returns, with a direction macro of one bit, the
  addresses put on the bus are exactly 8, 9, ..., 119, whatever the peripheral
  answers: an address is probed if and only if it lies between 8 and 119, and
  neither 7 nor 120 is probed.
\<close>

theorem scan_probes_exactly_candidates:
  assumes "twi_scan H cfg s = Some s'" and "TWI_WRITE cfg \<le> 1"
  shows "probed (drop (length (regw s)) (regw s')) = map of_nat [8..<120]
         \<and> set (probed (drop (length (regw s)) (regw s'))) = {a. 8 \<le> a \<and> a \<le> 119}
         \<and> 7 \<notin> set (probed (drop (length (regw s)) (regw s')))
         \<and> 120 \<notin> set (probed (drop (length (regw s)) (regw s')))"
proof -
  have "\<forall>a \<in> set [8..<120]. a < (128 :: nat)" by (simp only: set_upt) simp
  from probed_probes [OF assms(2) this]
  have p: "probed (drop (length (regw s)) (regw s')) = map of_nat [8..<120]"
    by (simp only: twi_scan_regw(1) [OF assms(1)] append_eq_conv_conj drop_append
        diff_self_eq_0 drop_0 drop_all order_refl append_Nil)
  have "set (probed (drop (length (regw s)) (regw s'))) = {a. 8 \<le> a \<and> a \<le> 119}"
    by (simp only: p candidates_set)
  moreover from this have "7 \<notin> set (probed (drop (length (regw s)) (regw s')))"
    and "120 \<notin> set (probed (drop (length (regw s)) (regw s')))"
    by simp_all
  ultimately show ?thesis using p by blast
qed

theorem scan_probes_exactly_candidates_witness:
  "\<exists>s'. twi_scan (sim_bus [7, 60, 120]) cfg0 mcu0 = Some s' \<and> TWI_WRITE cfg0 \<le> 1
     \<and> set (probed (drop (length (regw mcu0)) (regw s'))) = {a. 8 \<le> a \<and> a \<le> 119}
     \<and> 7 \<notin> set (probed (drop (length (regw mcu0)) (regw s')))
     \<and> 120 \<notin> set (probed (drop (length (regw mcu0)) (regw s')))"
proof -
  have "responding (sim_bus [7, 60, 120]) cfg0 (set [7, 60, 120])"
    by (rule sim_responding) (simp add: cfg0_def)
  from twi_scan_responding [OF this] obtain s' where
    h: "twi_scan (sim_bus [7, 60, 120]) cfg0 mcu0 = Some s'" by blast
  have w: "TWI_WRITE cfg0 \<le> 1" by (simp add: cfg0_def)
  from scan_probes_exactly_candidates [OF h w] h w show ?thesis by blast
qed




text \<open>
  C6. When \<^verbatim>\<open>twi_write\<close> returns anything but 0 for the probe of \<^verbatim>\<open>sla\<close>, the pass of
  the loop ends with the stop condition and nothing more: nothing is handed to the
  UART, and no byte of memory is written.
\<close>

theorem scan_silent_without_ack:
  assumes "twi_start H s = Some s1"
    and "twi_write H (push_bit 1 sla OR TWI_WRITE cfg) s1 = Some (ack, s2)"
    and "ack \<noteq> 0"
  shows "twi_scan_body H cfg sla s = Some (twi_stop H s2)
         \<and> uart (twi_stop H s2) = uart s \<and> frame (twi_stop H s2) = frame s
         \<and> stored (twi_stop H s2) = stored s"
  using twi_scan_body_eq [OF assms(1,2)] assms(3)
    twi_start_fields(2-4) [OF assms(1)] twi_write_fields(2-4) [OF assms(2)]
  by (simp add: twi_stop_fields)

theorem scan_silent_without_ack_witness:
  "\<exists>s1 ack s2. twi_start (sim_bus [60]) mcu0 = Some s1
     \<and> twi_write (sim_bus [60]) (push_bit 1 61 OR TWI_WRITE cfg0) s1 = Some (ack, s2)
     \<and> ack \<noteq> 0
     \<and> twi_scan_body (sim_bus [60]) cfg0 61 mcu0 = Some (twi_stop (sim_bus [60]) s2)
     \<and> uart (twi_stop (sim_bus [60]) s2) = []"
proof -
  obtain s1 where 1: "twi_start (sim_bus [60]) mcu0 = Some s1" using sim_start by blast
  from sim_write [of "[60]" "push_bit 1 61 OR TWI_WRITE cfg0" s1]
  obtain s2 where 2: "twi_write (sim_bus [60]) (push_bit 1 61 OR TWI_WRITE cfg0) s1 = Some (1, s2)"
    by (auto simp add: cfg0_def)
  have 3: "(1 :: byte) \<noteq> 0" by simp
  from scan_silent_without_ack [OF 1 2 3]
  have "twi_scan_body (sim_bus [60]) cfg0 61 mcu0 = Some (twi_stop (sim_bus [60]) s2)
     \<and> uart (twi_stop (sim_bus [60]) s2) = []"
    by (simp add: mcu0_def)
  with 1 2 3 show ?thesis by blast
qed

text \<open>
  C7. The register stores of a run of \<^verbatim>\<open>twi_scan\<close> that returns are, for each address
  from 8 to 119 in ascending order, exactly one start command, one address byte, one
  transfer command and one stop command, and nothing else. The text handed to the
  UART is the sequence of the report lines of some of these addresses, in ascending
  order and each at most once.
\<close>

theorem scan_probes_each_once_in_order:
  assumes "twi_scan H cfg s = Some s'"
  shows "regw s' = regw s @ concat (map (probe_stores cfg) [8..<120])
         \<and> (\<exists>as. subseq as [8..<120] \<and> uart s' = uart s @ concat (map report as))"
  using twi_scan_regw [OF assms] by (rule conjI)

theorem scan_probes_each_once_in_order_witness:
  "\<exists>s'. twi_scan (sim_bus [87, 104]) cfg0 mcu0 = Some s'
     \<and> regw s' = regw mcu0 @ concat (map (probe_stores cfg0) [8..<120])
     \<and> (\<exists>as. subseq as [8..<120] \<and> uart s' = uart mcu0 @ concat (map report as))"
proof -
  have "responding (sim_bus [87, 104]) cfg0 (set [87, 104])"
    by (rule sim_responding) (simp add: cfg0_def)
  from twi_scan_responding [OF this] obtain s' where
    h: "twi_scan (sim_bus [87, 104]) cfg0 mcu0 = Some s'" by blast
  from scan_probes_each_once_in_order [OF h] h show ?thesis by blast
qed

text \<open>
  C8. On a bus on which exactly the devices at the addresses in \<open>D\<close> respond, two
  runs of \<^verbatim>\<open>twi_scan\<close> in succession both return, and the text the second run hands
  to the UART is the text the first run handed to it: the report lines of the
  candidate addresses in \<open>D\<close>, ascending.
\<close>

theorem scan_twice_same_output:
  assumes "responding H cfg D"
  shows "\<exists>s1 s2. twi_scan H cfg s = Some s1 \<and> twi_scan H cfg s1 = Some s2
           \<and> drop (length (uart s)) (uart s1) = drop (length (uart s1)) (uart s2)
           \<and> drop (length (uart s)) (uart s1)
               = concat (map report (filter (\<lambda>a. a \<in> D) [8..<120]))"
proof -
  from twi_scan_responding [OF assms] obtain s1 where 1: "twi_scan H cfg s = Some s1"
    and u1: "uart s1 = uart s @ concat (map report (filter (\<lambda>a. a \<in> D) [8..<120]))"
    by blast
  from twi_scan_responding [OF assms] obtain s2 where 2: "twi_scan H cfg s1 = Some s2"
    and u2: "uart s2 = uart s1 @ concat (map report (filter (\<lambda>a. a \<in> D) [8..<120]))"
    by blast
  from u1 have "drop (length (uart s)) (uart s1)
      = concat (map report (filter (\<lambda>a. a \<in> D) [8..<120]))"
    by (simp only: drop_append diff_self_eq_0 drop_0 drop_all order_refl append_Nil)
  moreover from u2 have "drop (length (uart s1)) (uart s2)
      = concat (map report (filter (\<lambda>a. a \<in> D) [8..<120]))"
    by (simp only: drop_append diff_self_eq_0 drop_0 drop_all order_refl append_Nil)
  ultimately show ?thesis using 1 2 by auto
qed

theorem scan_twice_same_output_witness:
  "responding (sim_bus [60]) cfg0 {60}
   \<and> (\<exists>s1 s2. twi_scan (sim_bus [60]) cfg0 mcu0 = Some s1
          \<and> twi_scan (sim_bus [60]) cfg0 s1 = Some s2
          \<and> drop (length (uart mcu0)) (uart s1) = drop (length (uart s1)) (uart s2)
          \<and> drop (length (uart mcu0)) (uart s1) = [CR, LF] @ ''3c'')"
proof -
  have "responding (sim_bus [60]) cfg0 (set [60])"
    by (rule sim_responding) (simp add: cfg0_def)
  then have r: "responding (sim_bus [60]) cfg0 {60}" by simp
  have "concat (map report (filter (\<lambda>a. a \<in> {60}) [8..<120])) = [CR, LF] @ ''3c''"
    by (simp add: report_def numeral_text_16 hex2_def digit_char_def)
  with scan_twice_same_output [OF r, of mcu0] r show ?thesis by simp
qed

end
